theory Spec2Isabelle
  imports Main "HOL-Library.Word"
begin

unbundle bit_operations_syntax

section \<open>Data model\<close>

text \<open>
  A Go \<open>string\<close> is a sequence of bytes and is modelled as \<open>string\<close> (a list of 8-bit
  characters); a \<open>[]byte\<close> is a list of 8-bit words. The conversion \<open>[]byte(s)\<close> keeps
  every byte.
\<close>

type_synonym byte = "8 word"

definition bytes_of :: "string \<Rightarrow> byte list" where
  "bytes_of s = map of_char s"

subsection \<open>The escrypt alphabet and the two encoders\<close>

definition itoa64 :: string where
  "itoa64 = ''./0123456789ABCDEFGHIJKLMNOPQRSTUVWXYZabcdefghijklmnopqrstuvwxyz''"

text \<open>
  \<open>encode64Uint32\<close>: the loop \<open>for i := 0; i < bits; i += 6\<close> appends
  \<open>itoa64[value&0x3f]\<close> and shifts \<open>value\<close> right by 6. The counter is an unbounded
  integer here; the program calls the function with \<open>bits\<close> 6 and 30 only.
\<close>

function encode64Uint32_loop :: "32 word \<Rightarrow> int \<Rightarrow> int \<Rightarrow> string \<Rightarrow> string" where
  "encode64Uint32_loop v bits i result =
     (if i < bits
      then encode64Uint32_loop (drop_bit 6 v) bits (i + 6)
             (result @ [itoa64 ! unat (v AND 0x3f)])
      else result)"
  by pat_completeness auto
termination
  by (relation "measure (\<lambda>(v, bits, i, result). nat (bits - i))") auto

declare encode64Uint32_loop.simps [simp del]

definition encode64Uint32 :: "32 word \<Rightarrow> int \<Rightarrow> string" where
  "encode64Uint32 v bits = encode64Uint32_loop v bits 0 []"

text \<open>
  \<open>encode64Bytes\<close>: the first loop consumes full groups of three bytes while
  \<open>i+3 <= len(src)\<close>; it returns the final index together with the symbols written so
  far. \<open>uint\<close> is the 64-bit unsigned integer (no value here exceeds 24 bits).
\<close>

function encode64Bytes_loop :: "byte list \<Rightarrow> nat \<Rightarrow> string \<Rightarrow> nat \<times> string" where
  "encode64Bytes_loop src i result =
     (if i + 3 \<le> length src
      then (let v = (ucast (src ! i) OR push_bit 8 (ucast (src ! (i + 1)))
                       OR push_bit 16 (ucast (src ! (i + 2))) :: 64 word)
            in encode64Bytes_loop src (i + 3)
                 (result @ [itoa64 ! unat (v AND 0x3f),
                            itoa64 ! unat (drop_bit 6 v AND 0x3f),
                            itoa64 ! unat (drop_bit 12 v AND 0x3f),
                            itoa64 ! unat (drop_bit 18 v AND 0x3f)]))
      else (i, result))"
  by pat_completeness auto
termination
  by (relation "measure (\<lambda>(src, i, result). length src - i)") auto

declare encode64Bytes_loop.simps [simp del]

definition encode64Bytes :: "byte list \<Rightarrow> string" where
  "encode64Bytes src =
     (case encode64Bytes_loop src 0 [] of
        (i, result) \<Rightarrow>
          (let remaining = length src - i in
           if remaining = 1 then
             (let v = (ucast (src ! i) :: 64 word)
              in result @ [itoa64 ! unat (v AND 0x3f),
                           itoa64 ! unat (drop_bit 6 v AND 0x3f)])
           else if remaining = 2 then
             (let v = (ucast (src ! i) OR push_bit 8 (ucast (src ! (i + 1))) :: 64 word)
              in result @ [itoa64 ! unat (v AND 0x3f),
                           itoa64 ! unat (drop_bit 6 v AND 0x3f),
                           itoa64 ! unat (drop_bit 12 v AND 0x3f)])
           else result))"


subsection \<open>Formatting functions of the Go standard library\<close>

text \<open>
  \<open>fmt.Sprintf("%x", digest)\<close> on a byte array prints two lowercase hexadecimal digits
  per byte; \<open>%d\<close> prints an unsigned integer in decimal. Both belong to Go's \<open>fmt\<close>
  package and are written out here as that package documents them.
\<close>

definition hexdigits :: string where
  "hexdigits = ''0123456789abcdef''"

definition hex_byte :: "byte \<Rightarrow> string" where
  "hex_byte b = [hexdigits ! unat (drop_bit 4 b), hexdigits ! unat (b AND 0xf)]"

definition fmt_x :: "byte list \<Rightarrow> string" where
  "fmt_x bs = concat (map hex_byte bs)"

definition ldigits :: string where
  "ldigits = ''0123456789''"

function fmt_d :: "nat \<Rightarrow> string" where
  "fmt_d n = (if n < 10 then [ldigits ! n] else fmt_d (n div 10) @ [ldigits ! (n mod 10)])"
  by pat_completeness auto
termination
  by (relation "measure id") auto

declare fmt_d.simps [simp del]

text \<open>
  \<open>base64.RawStdEncoding.EncodeToString\<close> of \<open>encoding/base64\<close>: the alphabet of
  RFC 4648 section 4, most significant bits first, and no padding character.
\<close>

definition encodeStd :: string where
  "encodeStd = ''ABCDEFGHIJKLMNOPQRSTUVWXYZabcdefghijklmnopqrstuvwxyz0123456789+/''"

fun RawStdEncoding_EncodeToString :: "byte list \<Rightarrow> string" where
  "RawStdEncoding_EncodeToString (a # b # c # rest) =
     (let v = (push_bit 16 (ucast a) OR push_bit 8 (ucast b) OR ucast c :: 64 word)
      in [encodeStd ! unat (drop_bit 18 v AND 0x3f),
          encodeStd ! unat (drop_bit 12 v AND 0x3f),
          encodeStd ! unat (drop_bit 6 v AND 0x3f),
          encodeStd ! unat (v AND 0x3f)] @ RawStdEncoding_EncodeToString rest)"
| "RawStdEncoding_EncodeToString [a, b] =
     (let v = (push_bit 16 (ucast a) OR push_bit 8 (ucast b) :: 64 word)
      in [encodeStd ! unat (drop_bit 18 v AND 0x3f),
          encodeStd ! unat (drop_bit 12 v AND 0x3f),
          encodeStd ! unat (drop_bit 6 v AND 0x3f)])"
| "RawStdEncoding_EncodeToString [a] =
     (let v = (push_bit 16 (ucast a) :: 64 word)
      in [encodeStd ! unat (drop_bit 18 v AND 0x3f),
          encodeStd ! unat (drop_bit 12 v AND 0x3f)])"
| "RawStdEncoding_EncodeToString [] = []"

text \<open>
  \<open>strings.LastIndex(s, "$")\<close> with a one-byte separator: the index of the last
  occurrence, or -1 when there is none.
\<close>

fun LastIndex_scan :: "char \<Rightarrow> string \<Rightarrow> int \<Rightarrow> int \<Rightarrow> int" where
  "LastIndex_scan c [] i found = found"
| "LastIndex_scan c (x # xs) i found =
     LastIndex_scan c xs (i + 1) (if x = c then i else found)"

definition LastIndex :: "string \<Rightarrow> char \<Rightarrow> int" where
  "LastIndex s c = LastIndex_scan c s 0 (- 1)"

text \<open>
  A slice expression \<open>s[lo:hi]\<close> panics at run time unless
  \<open>0 <= lo <= hi <= len(s)\<close>.
\<close>

datatype panic = SliceBoundsOutOfRange

definition go_slice :: "string \<Rightarrow> int \<Rightarrow> int \<Rightarrow> panic + string" where
  "go_slice s lo hi =
     (if 0 \<le> lo \<and> lo \<le> hi \<and> hi \<le> int (length s)
      then Inr (take (nat (hi - lo)) (drop (nat lo) s))
      else Inl SliceBoundsOutOfRange)"

subsection \<open>The external packages\<close>

text \<open>
  The digests and key-derivation functions come from \<open>crypto/md5\<close>, \<open>crypto/sha1\<close>,
  \<open>crypto/sha512\<close>, \<open>golang.org/x/crypto/argon2\<close> and \<open>golang.org/x/crypto/scrypt\<close>.
  They are parameters of the model: every function of the program takes the record of
  these functions. \<open>scrypt.Key\<close> is the only one that can return an error.
  \<open>crypto/rand\<close> is a parameter too: \<open>rand.Read\<close> on a slice made with
  \<open>make([]byte, n)\<close> either fails with an error or fills all \<open>n\<close> bytes; the draw
  \<open>Inr f\<close> writes \<open>f i\<close> at index \<open>i\<close>. Each call of \<open>eqcryptHash\<close> reads the
  source at most once.
\<close>

type_synonym lib_error = string

record crypto_lib =
  md5_Sum :: "byte list \<Rightarrow> byte list"
  sha1_Sum :: "byte list \<Rightarrow> byte list"
  sha512_Sum512 :: "byte list \<Rightarrow> byte list"
  argon2_IDKey :: "byte list \<Rightarrow> byte list \<Rightarrow> 32 word \<Rightarrow> 32 word \<Rightarrow> 8 word \<Rightarrow> 32 word \<Rightarrow> byte list"
  scrypt_Key :: "byte list \<Rightarrow> byte list \<Rightarrow> int \<Rightarrow> int \<Rightarrow> int \<Rightarrow> int \<Rightarrow> lib_error + byte list"

type_synonym rand_source = "lib_error + (nat \<Rightarrow> byte)"

definition rand_Read :: "rand_source \<Rightarrow> nat \<Rightarrow> lib_error + byte list" where
  "rand_Read rnd n = (case rnd of Inl err \<Rightarrow> Inl err | Inr f \<Rightarrow> Inr (map f [0..<n]))"

text \<open>
  An error returned by the program is either the one \<open>eqcryptHash\<close> builds itself
  with \<open>fmt.Errorf("unsupported encryption mode: %d", mode)\<close> or an error handed on
  from a package.
\<close>

datatype error = UnsupportedMode int | External lib_error

subsection \<open>The username table\<close>

definition modeNeedsUsername :: "int \<rightharpoonup> bool" where
  "modeNeedsUsername =
     [2 \<mapsto> True, 3 \<mapsto> True, 4 \<mapsto> True,
      6 \<mapsto> True, 7 \<mapsto> True, 8 \<mapsto> True,
      10 \<mapsto> True, 11 \<mapsto> True, 12 \<mapsto> True]"

text \<open>The index expression \<open>modeNeedsUsername[mode]\<close>: a missing key reads as \<open>false\<close>.\<close>

definition modeRequiresUsername :: "int \<Rightarrow> bool" where
  "modeRequiresUsername m = (case modeNeedsUsername m of None \<Rightarrow> False | Some b \<Rightarrow> b)"

subsection \<open>Hash functions\<close>

definition hashMD5 :: "crypto_lib \<Rightarrow> string \<Rightarrow> string" where
  "hashMD5 L s = fmt_x (md5_Sum L (bytes_of s))"

definition hashSHA1 :: "crypto_lib \<Rightarrow> string \<Rightarrow> string" where
  "hashSHA1 L s = fmt_x (sha1_Sum L (bytes_of s))"

definition hashSHA512 :: "crypto_lib \<Rightarrow> string \<Rightarrow> string" where
  "hashSHA512 L s = fmt_x (sha512_Sum512 L (bytes_of s))"

definition hashArgon2 :: "crypto_lib \<Rightarrow> rand_source \<Rightarrow> string \<Rightarrow> error + string" where
  "hashArgon2 L rnd password =
     (case rand_Read rnd 16 of
        Inl err \<Rightarrow> Inl (External err)
      | Inr salt \<Rightarrow>
          (let timeCost = (2 :: 32 word);
               memoryCost = (65536 :: 32 word);
               threads = (1 :: 8 word);
               keyLen = (32 :: 32 word);
               hash = argon2_IDKey L (bytes_of password) salt timeCost memoryCost threads keyLen;
               b64Salt = RawStdEncoding_EncodeToString salt;
               b64Hash = RawStdEncoding_EncodeToString hash
           in Inr (''$argon2id$v=19$m='' @ fmt_d (unat memoryCost) @ '',t='' @ fmt_d (unat timeCost)
                   @ '',p='' @ fmt_d (unat threads) @ ''$'' @ b64Salt @ ''$'' @ b64Hash)))"

definition hashSCrypt :: "crypto_lib \<Rightarrow> rand_source \<Rightarrow> string \<Rightarrow> error + string" where
  "hashSCrypt L rnd password =
     (case rand_Read rnd 32 of
        Inl err \<Rightarrow> Inl (External err)
      | Inr rawSalt \<Rightarrow>
          (let N = (16384 :: int); r = (8 :: int); p = (1 :: int); keyLen = (32 :: int);
               encodedSalt = encode64Bytes rawSalt
           in case scrypt_Key L (bytes_of password) (bytes_of encodedSalt) N r p keyLen of
                Inl err \<Rightarrow> Inl (External err)
              | Inr dk \<Rightarrow>
                  (let log2N = (14 :: 32 word)
                   in Inr (''$7$'' @ encode64Uint32 log2N 6 @ encode64Uint32 (word_of_int r) 30
                           @ encode64Uint32 (word_of_int p) 30 @ encodedSalt @ ''$''
                           @ encode64Bytes dk))))"

definition verifySCrypt :: "crypto_lib \<Rightarrow> string \<Rightarrow> string \<Rightarrow> panic + bool" where
  "verifySCrypt L storedHash password =
     (if int (length storedHash) < 14 then Inr False
      else case go_slice storedHash 0 3 of
        Inl pn \<Rightarrow> Inl pn
      | Inr prefix3 \<Rightarrow>
          if prefix3 \<noteq> ''$7$'' then Inr False
          else (let lastDollar = LastIndex storedHash CHR ''$'' in
            if lastDollar \<le> 3 then Inr False
            else case go_slice storedHash 14 lastDollar of
              Inl pn \<Rightarrow> Inl pn
            | Inr encodedSalt \<Rightarrow>
                (case go_slice storedHash (lastDollar + 1) (int (length storedHash)) of
                   Inl pn \<Rightarrow> Inl pn
                 | Inr expectedDK \<Rightarrow>
                     (case scrypt_Key L (bytes_of password) (bytes_of encodedSalt) 16384 8 1 32 of
                        Inl err \<Rightarrow> Inr False
                      | Inr dk \<Rightarrow> Inr (encode64Bytes dk = expectedDK)))))"

definition eqcryptHash :: "crypto_lib \<Rightarrow> rand_source \<Rightarrow> string \<Rightarrow> string \<Rightarrow> int \<Rightarrow> error + string" where
  "eqcryptHash L rnd username password mode =
     (if mode = 1 then Inr (hashMD5 L password)
      else if mode = 2 then Inr (hashMD5 L (password @ '':'' @ username))
      else if mode = 3 then Inr (hashMD5 L (username @ '':'' @ password))
      else if mode = 4 then Inr (hashMD5 L (hashMD5 L username @ hashMD5 L password))
      else if mode = 5 then Inr (hashSHA1 L password)
      else if mode = 6 then Inr (hashSHA1 L (password @ '':'' @ username))
      else if mode = 7 then Inr (hashSHA1 L (username @ '':'' @ password))
      else if mode = 8 then Inr (hashSHA1 L (hashSHA1 L username @ hashSHA1 L password))
      else if mode = 9 then Inr (hashSHA512 L password)
      else if mode = 10 then Inr (hashSHA512 L (password @ '':'' @ username))
      else if mode = 11 then Inr (hashSHA512 L (username @ '':'' @ password))
      else if mode = 12 then Inr (hashSHA512 L (hashSHA512 L username @ hashSHA512 L password))
      else if mode = 13 then hashArgon2 L rnd password
      else if mode = 14 then hashSCrypt L rnd password
      else Inl (UnsupportedMode mode))"

subsection \<open>Auxiliary definitions for the proofs\<close>

text \<open>
  The encoder once more, by recursion on the input list: four symbols for each group of
  three bytes, three for a trailing pair, two for a trailing single byte. It is proved
  equal to \<open>encode64Bytes\<close> below and serves the inductions.
\<close>

fun encode64_groups :: "byte list \<Rightarrow> string" where
  "encode64_groups (a # b # c # rest) =
     (let v = (ucast a OR push_bit 8 (ucast b) OR push_bit 16 (ucast c) :: 64 word)
      in [itoa64 ! unat (v AND 0x3f),
          itoa64 ! unat (drop_bit 6 v AND 0x3f),
          itoa64 ! unat (drop_bit 12 v AND 0x3f),
          itoa64 ! unat (drop_bit 18 v AND 0x3f)] @ encode64_groups rest)"
| "encode64_groups [a, b] =
     (let v = (ucast a OR push_bit 8 (ucast b) :: 64 word)
      in [itoa64 ! unat (v AND 0x3f),
          itoa64 ! unat (drop_bit 6 v AND 0x3f),
          itoa64 ! unat (drop_bit 12 v AND 0x3f)])"
| "encode64_groups [a] =
     (let v = (ucast a :: 64 word)
      in [itoa64 ! unat (v AND 0x3f),
          itoa64 ! unat (drop_bit 6 v AND 0x3f)])"
| "encode64_groups [] = []"

fun index_of :: "'a \<Rightarrow> 'a list \<Rightarrow> nat option" where
  "index_of c [] = None"
| "index_of c (x # xs) = (if x = c then Some 0 else map_option Suc (index_of c xs))"

text \<open>
  Modelled from the spec: the symbol lookup of the decoder, which the program does not
  have. A character of \<open>itoa64\<close> is read back as its index; any other character has
  none.
\<close>

definition itoa64_index :: "char \<Rightarrow> 64 word option" where
  "itoa64_index c = map_option of_nat (index_of c itoa64)"

text \<open>
  Modelled from the spec: \<open>decode\<close> of section 4.1, the inverse of \<open>encode_bytes\<close>.
  The program has no decoder (\<open>verifySCrypt\<close> encodes the derived key and compares
  strings). \<open>decode64Bytes\<close> reads four symbols into three bytes, three into two and
  two into one, least significant bits first, and rejects a string with a character
  outside the 64-symbol alphabet and one with a single left-over symbol.
\<close>

fun decode64Bytes :: "string \<Rightarrow> byte list option" where
  "decode64Bytes (c0 # c1 # c2 # c3 # rest) =
     (case itoa64_index c0 of None \<Rightarrow> None | Some s0 \<Rightarrow>
      case itoa64_index c1 of None \<Rightarrow> None | Some s1 \<Rightarrow>
      case itoa64_index c2 of None \<Rightarrow> None | Some s2 \<Rightarrow>
      case itoa64_index c3 of None \<Rightarrow> None | Some s3 \<Rightarrow>
      case decode64Bytes rest of None \<Rightarrow> None | Some bs \<Rightarrow>
        (let v = s0 OR push_bit 6 s1 OR push_bit 12 s2 OR push_bit 18 s3
         in Some (ucast v # ucast (drop_bit 8 v) # ucast (drop_bit 16 v) # bs)))"
| "decode64Bytes [c0, c1, c2] =
     (case itoa64_index c0 of None \<Rightarrow> None | Some s0 \<Rightarrow>
      case itoa64_index c1 of None \<Rightarrow> None | Some s1 \<Rightarrow>
      case itoa64_index c2 of None \<Rightarrow> None | Some s2 \<Rightarrow>
        (let v = s0 OR push_bit 6 s1 OR push_bit 12 s2
         in Some [ucast v, ucast (drop_bit 8 v)]))"
| "decode64Bytes [c0, c1] =
     (case itoa64_index c0 of None \<Rightarrow> None | Some s0 \<Rightarrow>
      case itoa64_index c1 of None \<Rightarrow> None | Some s1 \<Rightarrow>
        (let v = s0 OR push_bit 6 s1 in Some [ucast v]))"
| "decode64Bytes [c0] = None"
| "decode64Bytes [] = Some []"

text \<open>
  A stand-in for the external packages, for evaluating the program on concrete inputs:
  each function returns the requested number of bytes, taken from its input and filled
  up with zeros. \<open>scrypt_Key\<close> refuses a cost parameter below 2, as the package does.
\<close>

definition sample_lib :: crypto_lib where
  "sample_lib =
     \<lparr> md5_Sum = (\<lambda>bs. take 16 (bs @ replicate 16 0)),
       sha1_Sum = (\<lambda>bs. take 20 (bs @ replicate 20 0)),
       sha512_Sum512 = (\<lambda>bs. take 64 (bs @ replicate 64 0)),
       argon2_IDKey = (\<lambda>pw salt t m th k. take (unat k) (pw @ salt @ replicate (unat k) 0)),
       scrypt_Key = (\<lambda>pw salt N r p k.
          if N \<le> 1 \<or> k < 0 then Inl ''scrypt: N must be > 1 and a power of 2''
          else Inr (take (nat k) (pw @ salt @ replicate (nat k) 0))) \<rparr>"

definition sample_rand :: rand_source where
  "sample_rand = Inr (\<lambda>i. of_nat (7 * i + 3))"

section \<open>Properties of the escrypt codec\<close>

lemma length_itoa64: "length itoa64 = 64" by (simp add: itoa64_def)
lemma distinct_itoa64: "distinct itoa64" by (simp add: itoa64_def)
lemma dollar_notin_itoa64: "CHR ''$'' \<notin> set itoa64" by (simp add: itoa64_def)
lemma equals_notin_itoa64: "CHR ''='' \<notin> set itoa64" by (simp add: itoa64_def)

text \<open>
  Every index into \<open>itoa64\<close> is a value masked with \<open>0x3f\<close>, so it is below 64, the
  length of the alphabet: no index expression of the two encoders is out of range.
\<close>

lemma mask6_less64: "unat ((w :: 64 word) AND 0x3f) < 64"
proof -
  have "unat (w AND 0x3f) \<le> unat (0x3f :: 64 word)"
    by (rule word_and_le1 [THEN word_le_nat_alt [THEN iffD1]])
  then show ?thesis by simp
qed

lemma mask6_less32: "unat ((w :: 32 word) AND 0x3f) < 64"
proof -
  have "unat (w AND 0x3f) \<le> unat (0x3f :: 32 word)"
    by (rule word_and_le1 [THEN word_le_nat_alt [THEN iffD1]])
  then show ?thesis by simp
qed

lemma sym64_in_itoa64: "itoa64 ! unat ((w :: 64 word) AND 0x3f) \<in> set itoa64"
  by (rule nth_mem) (simp add: length_itoa64 mask6_less64)

lemma sym32_in_itoa64: "itoa64 ! unat ((w :: 32 word) AND 0x3f) \<in> set itoa64"
  by (rule nth_mem) (simp add: length_itoa64 mask6_less32)

lemma m6: "(0x3f :: 64 word) = mask 6" by (simp add: mask_eq_exp_minus_1)

lemma glue4:
  fixes v :: "64 word"
  shows "(v AND 0x3f) OR push_bit 6 (drop_bit 6 v AND 0x3f) OR push_bit 12 (drop_bit 12 v AND 0x3f)
           OR push_bit 18 (drop_bit 18 v AND 0x3f) = take_bit 24 v"
  unfolding m6
proof (rule bit_word_eqI)
  fix n :: nat
  show "bit ((v AND mask 6) OR push_bit 6 (drop_bit 6 v AND mask 6) OR push_bit 12 (drop_bit 12 v AND mask 6)
           OR push_bit 18 (drop_bit 18 v AND mask 6)) n = bit (take_bit 24 v) n"
    by (cases "n < 6"; cases "n < 12"; cases "n < 18"; cases "n < 24"; auto simp add: bit_simps)
qed

lemma glue3:
  fixes v :: "64 word"
  shows "(v AND 0x3f) OR push_bit 6 (drop_bit 6 v AND 0x3f) OR push_bit 12 (drop_bit 12 v AND 0x3f)
            = take_bit 18 v"
  unfolding m6
proof (rule bit_word_eqI)
  fix n :: nat
  show "bit ((v AND mask 6) OR push_bit 6 (drop_bit 6 v AND mask 6) OR push_bit 12 (drop_bit 12 v AND mask 6)) n
         = bit (take_bit 18 v) n"
    by (cases "n < 6"; cases "n < 12"; cases "n < 18"; auto simp add: bit_simps)
qed

lemma glue2:
  fixes v :: "64 word"
  shows "(v AND 0x3f) OR push_bit 6 (drop_bit 6 v AND 0x3f) = take_bit 12 v"
  unfolding m6
proof (rule bit_word_eqI)
  fix n :: nat
  show "bit ((v AND mask 6) OR push_bit 6 (drop_bit 6 v AND mask 6)) n = bit (take_bit 12 v) n"
    by (cases "n < 6"; cases "n < 12"; auto simp add: bit_simps)
qed

lemma pack3_a:
  fixes a b c :: byte
  shows "ucast (take_bit 24 (ucast a OR push_bit 8 (ucast b) OR push_bit 16 (ucast c) :: 64 word)) = a"
  by (rule bit_word_eqI) (simp add: bit_simps)

lemma pack3_b:
  fixes a b c :: byte
  shows "ucast (drop_bit 8 (take_bit 24 (ucast a OR push_bit 8 (ucast b) OR push_bit 16 (ucast c) :: 64 word))) = b"
  by (rule bit_word_eqI) (auto simp add: bit_simps dest: bit_imp_le_length)

lemma pack3_c:
  fixes a b c :: byte
  shows "ucast (drop_bit 16 (take_bit 24 (ucast a OR push_bit 8 (ucast b) OR push_bit 16 (ucast c) :: 64 word))) = c"
  by (rule bit_word_eqI) (auto simp add: bit_simps dest: bit_imp_le_length)

lemma pack2_a:
  fixes a b :: byte
  shows "ucast (take_bit 18 (ucast a OR push_bit 8 (ucast b) :: 64 word)) = a"
  by (rule bit_word_eqI) (simp add: bit_simps)

lemma pack2_b:
  fixes a b :: byte
  shows "ucast (drop_bit 8 (take_bit 18 (ucast a OR push_bit 8 (ucast b) :: 64 word))) = b"
  by (rule bit_word_eqI) (auto simp add: bit_simps dest: bit_imp_le_length)

lemma pack1_a:
  fixes a :: byte
  shows "ucast (take_bit 12 (ucast a :: 64 word)) = a"
  by (rule bit_word_eqI) (simp add: bit_simps)

lemma index_of_None: "index_of c xs = None \<longleftrightarrow> c \<notin> set xs"
  by (induction xs) auto

lemma index_of_nth: "distinct xs \<Longrightarrow> i < length xs \<Longrightarrow> index_of (xs ! i) xs = Some i"
proof (induction xs arbitrary: i)
  case Nil
  then show ?case by simp
next
  case (Cons x xs)
  show ?case
  proof (cases i)
    case 0
    then show ?thesis by simp
  next
    case (Suc j)
    with Cons.prems have "xs ! j \<in> set xs" "x \<notin> set xs" by auto
    then have "x \<noteq> xs ! j" by auto
    with Suc Cons show ?thesis by simp
  qed
qed

lemma itoa64_index_sym: "itoa64_index (itoa64 ! unat ((w :: 64 word) AND 0x3f)) = Some (w AND 0x3f)"
  by (simp add: itoa64_index_def index_of_nth distinct_itoa64 length_itoa64 mask6_less64)

lemma itoa64_index_None: "c \<notin> set itoa64 \<Longrightarrow> itoa64_index c = None"
  by (simp add: itoa64_index_def index_of_None)

lemma encode64Bytes_loop_groups:
  "i \<le> length src \<Longrightarrow>
   (case encode64Bytes_loop src i result of
      (j, r) \<Rightarrow> j \<le> length src \<and> length src - j < 3 \<and> r @ encode64_groups (drop j src) = result @ encode64_groups (drop i src))"
proof (induction src i result rule: encode64Bytes_loop.induct)
  case (1 src i result)
  show ?case
  proof (cases "i + 3 \<le> length src")
    case True
    then have d: "drop i src = src ! i # src ! (i + 1) # src ! (i + 2) # drop (i + 3) src"
      by (simp add: Cons_nth_drop_Suc add.commute numeral_3_eq_3)
    from True have le: "i + 3 \<le> length src" .
    show ?thesis
      using "1.IH" [OF True refl le] True
      by (subst encode64Bytes_loop.simps) (simp add: d Let_def split: prod.splits)
  next
    case False
    with "1.prems" show ?thesis
      by (subst encode64Bytes_loop.simps) simp
  qed
qed


lemma encode64Bytes_groups: "encode64Bytes src = encode64_groups src"
proof -
  obtain j r where jr: "encode64Bytes_loop src 0 [] = (j, r)"
    by (cases "encode64Bytes_loop src 0 []")
  from encode64Bytes_loop_groups [of 0 src "[]"] jr
  have j: "j \<le> length src" "length src - j < 3" and r: "r @ encode64_groups (drop j src) = encode64_groups src"
    by simp_all
  consider "length src - j = 0" | "length src - j = 1" | "length src - j = 2"
    using j(2) by linarith
  then show ?thesis
  proof cases
    case 1
    then have "drop j src = []" by simp
    with r 1 jr show ?thesis by (simp add: encode64Bytes_def)
  next
    case 2
    then have "drop j src = [src ! j]"
      by (metis Cons_nth_drop_Suc Suc_diff_Suc diff_is_0_eq' drop_all less_numeral_extra(3) linorder_not_le nat.inject One_nat_def zero_less_diff zero_less_one)
    with r 2 jr show ?thesis by (simp add: encode64Bytes_def Let_def)
  next
    case 3
    then have "j < length src" "Suc j < length src" "length src \<le> Suc (Suc j)" by linarith+
    then have "drop j src = [src ! j, src ! (j + 1)]"
      by (simp add: Cons_nth_drop_Suc [symmetric])
    with r 3 jr show ?thesis by (simp add: encode64Bytes_def Let_def)
  qed
qed

lemma encode64_groups_alphabet: "set (encode64_groups xs) \<subseteq> set itoa64"
  by (induction xs rule: encode64_groups.induct) (simp_all add: Let_def sym64_in_itoa64)

lemma encode64_groups_length:
  "length (encode64_groups xs) = 4 * (length xs div 3) + (if length xs mod 3 = 0 then 0 else length xs mod 3 + 1)"
proof (induction xs rule: encode64_groups.induct)
  case (1 a b c rest)
  have "(3 + length rest) div 3 = Suc (length rest div 3)" "(3 + length rest) mod 3 = length rest mod 3"
    by simp_all
  with 1 show ?case by (simp add: Let_def)
qed (simp_all add: Let_def)

lemma decode_step4:
  fixes v :: "64 word"
  shows "decode64Bytes (itoa64 ! unat (v AND 0x3f) # itoa64 ! unat (drop_bit 6 v AND 0x3f)
            # itoa64 ! unat (drop_bit 12 v AND 0x3f) # itoa64 ! unat (drop_bit 18 v AND 0x3f) # rest) =
         (case decode64Bytes rest of None \<Rightarrow> None
          | Some bs \<Rightarrow> Some (ucast (take_bit 24 v) # ucast (drop_bit 8 (take_bit 24 v))
                             # ucast (drop_bit 16 (take_bit 24 v)) # bs))"
  by (simp only: decode64Bytes.simps itoa64_index_sym option.case Let_def glue4)

lemma decode_step3:
  fixes v :: "64 word"
  shows "decode64Bytes [itoa64 ! unat (v AND 0x3f), itoa64 ! unat (drop_bit 6 v AND 0x3f),
            itoa64 ! unat (drop_bit 12 v AND 0x3f)] =
         Some [ucast (take_bit 18 v), ucast (drop_bit 8 (take_bit 18 v))]"
  by (simp only: decode64Bytes.simps itoa64_index_sym option.case Let_def glue3)

lemma decode_step2:
  fixes v :: "64 word"
  shows "decode64Bytes [itoa64 ! unat (v AND 0x3f), itoa64 ! unat (drop_bit 6 v AND 0x3f)] =
         Some [ucast (take_bit 12 v)]"
  by (simp only: decode64Bytes.simps itoa64_index_sym option.case Let_def glue2)

lemma decode_encode_groups: "decode64Bytes (encode64_groups xs) = Some xs"
proof (induction xs rule: encode64_groups.induct)
  case (1 a b c rest)
  then show ?case
    by (simp only: encode64_groups.simps Let_def append.simps decode_step4 option.case
          pack3_a pack3_b pack3_c)
next
  case (2 a b)
  show ?case
    by (simp only: encode64_groups.simps Let_def decode_step3 pack2_a pack2_b)
next
  case (3 a)
  show ?case
    by (simp only: encode64_groups.simps Let_def decode_step2 pack1_a)
next
  case 4
  show ?case by simp
qed

lemma itoa64_index_Some: "itoa64_index c = Some w \<Longrightarrow> c \<in> set itoa64"
  using index_of_None [of c itoa64] by (auto simp add: itoa64_index_def)

lemma decode64Bytes_Some_alphabet: "decode64Bytes s = Some bs \<Longrightarrow> set s \<subseteq> set itoa64"
  by (induction s arbitrary: bs rule: decode64Bytes.induct)
     (auto split: option.splits dest: itoa64_index_Some)

lemma LastIndex_scan_absent: "c \<notin> set xs \<Longrightarrow> LastIndex_scan c xs i found = found"
  by (induction xs arbitrary: i found) auto

lemma LastIndex_scan_append:
  "LastIndex_scan c (xs @ ys) i found = LastIndex_scan c ys (i + int (length xs)) (LastIndex_scan c xs i found)"
  by (induction xs arbitrary: i found) (auto simp add: algebra_simps)

lemma LastIndex_last: "c \<notin> set ys \<Longrightarrow> LastIndex (xs @ c # ys) c = int (length xs)"
  by (simp add: LastIndex_def LastIndex_scan_append LastIndex_scan_absent)

lemma LastIndex_absent: "c \<notin> set xs \<Longrightarrow> LastIndex xs c = - 1"
  by (simp add: LastIndex_def LastIndex_scan_absent)

lemma unat_and_mask6: "unat ((w :: 64 word) AND 0x3f) = unat w mod 64"
  unfolding m6
  by (simp add: unat_mod flip: take_bit_eq_mask add: take_bit_eq_mod)

lemma unat_drop_bit6: "unat (drop_bit 6 (w :: 64 word)) = unat w div 64"
  by (simp add: drop_bit_eq_div unat_div)
lemma unat_drop_bit12: "unat (drop_bit 12 (w :: 64 word)) = unat w div 4096"
  by (simp add: drop_bit_eq_div unat_div)
lemma unat_drop_bit18: "unat (drop_bit 18 (w :: 64 word)) = unat w div 262144"
  by (simp add: drop_bit_eq_div unat_div)

lemma pack_or1:
  fixes b c :: byte
  shows "(push_bit 8 (ucast b) OR push_bit 16 (ucast c) :: 64 word) = push_bit 8 (ucast b) + push_bit 16 (ucast c)"
proof (rule disjunctive_add [symmetric])
  fix n
  show "\<not> bit (push_bit 8 (ucast b) :: 64 word) n \<or> \<not> bit (push_bit 16 (ucast c) :: 64 word) n"
    by (cases "n < 16") (auto simp add: bit_simps dest: bit_imp_le_length)
qed

lemma pack_or2:
  fixes a b c :: byte
  shows "(ucast a OR (push_bit 8 (ucast b) OR push_bit 16 (ucast c)) :: 64 word)
       = ucast a + (push_bit 8 (ucast b) OR push_bit 16 (ucast c))"
proof (rule disjunctive_add [symmetric])
  fix n
  show "\<not> bit (ucast a :: 64 word) n \<or> \<not> bit (push_bit 8 (ucast b) OR push_bit 16 (ucast c) :: 64 word) n"
    by (cases "n < 8") (auto simp add: bit_simps dest: bit_imp_le_length)
qed

lemma unat_pack3:
  fixes a b c :: byte
  shows "unat (ucast a OR push_bit 8 (ucast b) OR push_bit 16 (ucast c) :: 64 word)
        = unat a + 256 * unat b + 65536 * unat c"
proof -
  have lt: "unat a < 256" "unat b < 256" "unat c < 256"
    using unsigned_less [of a] unsigned_less [of b] unsigned_less [of c] by simp_all
  have "(ucast a OR push_bit 8 (ucast b) OR push_bit 16 (ucast c) :: 64 word)
        = ucast a + (push_bit 8 (ucast b) OR push_bit 16 (ucast c))"
    by (simp only: or.assoc pack_or2)
  also have "\<dots> = ucast a + (push_bit 8 (ucast b) + push_bit 16 (ucast c))"
    by (simp only: pack_or1)
  also have "\<dots> = of_nat (unat a + 256 * unat b + 65536 * unat c)"
    by (simp add: push_bit_eq_mult)
  finally have "unat (ucast a OR push_bit 8 (ucast b) OR push_bit 16 (ucast c) :: 64 word)
        = unat (of_nat (unat a + 256 * unat b + 65536 * unat c) :: 64 word)"
    by (rule arg_cong)
  also have "\<dots> = unat a + 256 * unat b + 65536 * unat c"
    by (simp only: unat_of_nat) (use lt in simp)
  finally show ?thesis .
qed

lemma unat_pack2:
  fixes a b :: byte
  shows "unat (ucast a OR push_bit 8 (ucast b) :: 64 word) = unat a + 256 * unat b"
  using unat_pack3 [of a b 0] by simp

lemma unat_pack1:
  fixes a :: byte
  shows "unat (ucast a :: 64 word) = unat a"
  using unat_pack3 [of a 0 0] by simp

lemma byte_less: "unat (a :: byte) < 256"
  using unsigned_less [of a] by simp

lemma group3_symbols:
  fixes a b c :: byte
  shows "encode64_groups (a # b # c # rest) =
     (let n = unat a + 256 * unat b + 65536 * unat c
      in [itoa64 ! (n mod 64), itoa64 ! (n div 64 mod 64), itoa64 ! (n div 4096 mod 64),
          itoa64 ! (n div 262144)] @ encode64_groups rest)"
proof -
  have "(unat a + 256 * unat b + 65536 * unat c) div 262144 < 64"
    using byte_less [of a] byte_less [of b] byte_less [of c] by simp
  then show ?thesis
    by (simp only: encode64_groups.simps Let_def unat_and_mask6 unat_drop_bit6 unat_drop_bit12
          unat_drop_bit18 unat_pack3 mod_less)
qed

lemma group2_symbols:
  fixes a b :: byte
  shows "encode64_groups [a, b] =
     (let n = unat a + 256 * unat b
      in [itoa64 ! (n mod 64), itoa64 ! (n div 64 mod 64), itoa64 ! (n div 4096)])"
proof -
  have "(unat a + 256 * unat b) div 4096 < 64"
    using byte_less [of a] byte_less [of b] by simp
  then show ?thesis
    by (simp only: encode64_groups.simps Let_def unat_and_mask6 unat_drop_bit6 unat_drop_bit12
          unat_pack2 mod_less)
qed

lemma group1_symbols:
  fixes a :: byte
  shows "encode64_groups [a] = [itoa64 ! (unat a mod 64), itoa64 ! (unat a div 64)]"
proof -
  have "unat a div 64 < 64"
    using byte_less [of a] by simp
  then show ?thesis
    by (simp only: encode64_groups.simps Let_def unat_and_mask6 unat_drop_bit6 unat_pack1 mod_less)
qed

text \<open>
  Claim C7. \<open>encode64Bytes\<close> writes four symbols of \<open>itoa64\<close> for each full group
  of three bytes: the group is read as the little-endian number
  \<open>byte0 + 256 * byte1 + 65536 * byte2\<close> and its base-64 digits are written least
  significant first. One trailing byte gives exactly two symbols, the second with an index
  below 4 (its upper four bits are zero); two trailing bytes give exactly three symbols.
  The output has \<open>4 * (len div 3)\<close> symbols plus 0, 2 or 3 for the remainder, and the
  padding character \<open>=\<close> never occurs in it.
\<close>

theorem encode64Bytes_packing:
  fixes a b c :: byte
  shows "itoa64 = ''./0123456789ABCDEFGHIJKLMNOPQRSTUVWXYZabcdefghijklmnopqrstuvwxyz''
    \<and> encode64Bytes [] = []
    \<and> (let n = unat a + 256 * unat b + 65536 * unat c
       in encode64Bytes (a # b # c # rest) =
            [itoa64 ! (n mod 64), itoa64 ! (n div 64 mod 64), itoa64 ! (n div 4096 mod 64),
             itoa64 ! (n div 262144)] @ encode64Bytes rest
          \<and> n div 262144 < 64)
    \<and> encode64Bytes [a] = [itoa64 ! (unat a mod 64), itoa64 ! (unat a div 64)]
    \<and> unat a div 64 < 4
    \<and> (let n = unat a + 256 * unat b
       in encode64Bytes [a, b] = [itoa64 ! (n mod 64), itoa64 ! (n div 64 mod 64), itoa64 ! (n div 4096)]
          \<and> n div 4096 < 16)
    \<and> length (encode64Bytes xs) = 4 * (length xs div 3) + [0, 2, 3] ! (length xs mod 3)
    \<and> CHR ''='' \<notin> set (encode64Bytes xs)"
proof -
  have lt: "unat a < 256" "unat b < 256" "unat c < 256"
    by (rule byte_less)+
  have g3: "(unat a + 256 * unat b + 65536 * unat c) div 262144 < 64"
    and g2: "(unat a + 256 * unat b) div 4096 < 16"
    and g1: "unat a div 64 < 4"
    using lt by simp_all
  have len: "length (encode64Bytes xs) = 4 * (length xs div 3) + [0, 2, 3] ! (length xs mod 3)"
  proof -
    consider "length xs mod 3 = 0" | "length xs mod 3 = 1" | "length xs mod 3 = 2"
      by linarith
    then show ?thesis
      by cases (simp_all add: encode64Bytes_groups encode64_groups_length)
  qed
  have noeq: "CHR ''='' \<notin> set (encode64Bytes xs)"
    using encode64_groups_alphabet [of xs] equals_notin_itoa64
    by (auto simp add: encode64Bytes_groups)
  show ?thesis
    using g3 g2 g1 len noeq
    by (simp only: encode64Bytes_groups group3_symbols group2_symbols group1_symbols Let_def
          encode64_groups.simps itoa64_def [symmetric])
       (simp add: itoa64_def)
qed

section \<open>The scrypt format: generation and verification\<close>

lemma verifySCrypt_shape:
  assumes len: "14 \<le> length s" and pre: "take 3 s = ''$7$''" and h: "CHR ''$'' \<notin> set h"
  shows "verifySCrypt L (s @ ''$'' @ h) p =
         Inr (case scrypt_Key L (bytes_of p) (bytes_of (drop 14 s)) 16384 8 1 32 of
                Inl err \<Rightarrow> False
              | Inr dk \<Rightarrow> encode64Bytes dk = h)"
proof -
  let ?st = "s @ ''$'' @ h"
  have ld: "LastIndex ?st CHR ''$'' = int (length s)"
    using LastIndex_last [OF h, of s] by simp
  have s1: "go_slice ?st 0 3 = Inr ''$7$''"
    using len pre by (simp add: go_slice_def)
  have s2: "go_slice ?st 14 (int (length s)) = Inr (drop 14 s)"
    using len by (simp add: go_slice_def)
  have "nat (int (length s) + 1) = Suc (length s)"
    by simp
  then have s3: "go_slice ?st (int (length s) + 1) (int (length ?st)) = Inr h"
    by (simp add: go_slice_def)
  have l: "\<not> int (length ?st) < 14" "\<not> int (length s) \<le> 3"
    using len by simp_all
  show ?thesis
    unfolding verifySCrypt_def Let_def ld s1 s2 s3
    using l by (simp split: sum.splits)
qed

lemma encode64Bytes_inj: "encode64Bytes x = encode64Bytes y \<Longrightarrow> x = y"
proof -
  assume "encode64Bytes x = encode64Bytes y"
  then have "decode64Bytes (encode64_groups x) = decode64Bytes (encode64_groups y)"
    by (simp only: encode64Bytes_groups)
  then show "x = y"
    by (simp only: decode_encode_groups option.inject)
qed

lemma encode64Bytes_alphabet: "set (encode64Bytes xs) \<subseteq> set itoa64"
  by (simp add: encode64Bytes_groups encode64_groups_alphabet)

lemma encode64Bytes_no_dollar: "CHR ''$'' \<notin> set (encode64Bytes xs)"
  using encode64Bytes_alphabet [of xs] dollar_notin_itoa64 by auto

text \<open>
  Claim C10. \<open>encode64Bytes\<close> is injective, and its output consists of symbols of the
  64-character alphabet only, so it never contains \<open>$\<close>. Hence, for a stored string
  made of at least 14 characters starting with \<open>$7$\<close>, a \<open>$\<close> and an encoded key,
  the last \<open>$\<close> is that separator, and \<open>verifySCrypt\<close> answers whether the key it
  derives from the password and the salt text equals the encoded raw key.
\<close>

theorem encode64Bytes_injective:
  "(encode64Bytes x = encode64Bytes y \<longleftrightarrow> x = y)
   \<and> set (encode64Bytes x) \<subseteq> set itoa64
   \<and> length itoa64 = 64
   \<and> CHR ''$'' \<notin> set (encode64Bytes x)
   \<and> (14 \<le> length s \<and> take 3 s = ''$7$'' \<longrightarrow>
        LastIndex (s @ ''$'' @ encode64Bytes x) CHR ''$'' = int (length s)
        \<and> verifySCrypt L (s @ ''$'' @ encode64Bytes x) p =
            Inr (scrypt_Key L (bytes_of p) (bytes_of (drop 14 s)) 16384 8 1 32 = Inr x))"
proof -
  have inj: "encode64Bytes x = encode64Bytes y \<longleftrightarrow> x = y"
    using encode64Bytes_inj by blast
  have ld: "LastIndex (s @ ''$'' @ encode64Bytes x) CHR ''$'' = int (length s)"
    using LastIndex_last [OF encode64Bytes_no_dollar, of s x] by simp
  have v: "verifySCrypt L (s @ ''$'' @ encode64Bytes x) p =
            Inr (scrypt_Key L (bytes_of p) (bytes_of (drop 14 s)) 16384 8 1 32 = Inr x)"
    if "14 \<le> length s" "take 3 s = ''$7$''"
    using verifySCrypt_shape [OF that encode64Bytes_no_dollar, of L x p] encode64Bytes_inj
    by (auto split: sum.splits)
  show ?thesis
    using inj ld v encode64Bytes_alphabet [of x] encode64Bytes_no_dollar [of x] length_itoa64
    by blast
qed

theorem encode64Bytes_injective_witness:
  "(14::nat) \<le> length ''$7$C6..../....ab''
   \<and> take 3 ''$7$C6..../....ab'' = ''$7$''
   \<and> LastIndex (''$7$C6..../....ab'' @ ''$'' @ encode64Bytes [1, 2, 3, 4]) CHR ''$'' = 16
   \<and> verifySCrypt sample_lib (''$7$C6..../....ab'' @ ''$'' @ encode64Bytes [1, 2, 3, 4]) ''pw'' = Inr False
   \<and> scrypt_Key sample_lib (bytes_of ''pw'') (bytes_of ''ab'') 16384 8 1 32 \<noteq> Inr [1, 2, 3, 4]"
proof -
  have a: "(14::nat) \<le> length ''$7$C6..../....ab''" and b: "take 3 ''$7$C6..../....ab'' = ''$7$''"
    by simp_all
  have c: "scrypt_Key sample_lib (bytes_of ''pw'') (bytes_of ''ab'') 16384 8 1 32 \<noteq> Inr [1, 2, 3, 4]"
    by (simp add: sample_lib_def bytes_of_def)
  show ?thesis
    using encode64Bytes_injective [of "[1, 2, 3, 4]" "[1, 2, 3, 4]" "''$7$C6..../....ab''" sample_lib "''pw''"] a b c
    by simp
qed

text \<open>
  Claim C6. The decoder is the exact inverse of the encoder: decoding the encoding of a
  byte sequence gives that sequence back, for every byte sequence (of any length, so
  also 0, 1, 2, 3, 4, 31 and 32), and decoding fails on every string that contains a
  character outside the 64-symbol alphabet. The program itself has no decoder;
  \<open>decode64Bytes\<close> is the one the specification describes.
\<close>

theorem decode64Bytes_inverse:
  "decode64Bytes (encode64Bytes x) = Some x
   \<and> (\<not> set s \<subseteq> set itoa64 \<longrightarrow> decode64Bytes s = None)"
proof -
  have r: "\<not> set s \<subseteq> set itoa64 \<longrightarrow> decode64Bytes s = None"
    using decode64Bytes_Some_alphabet [of s] by (cases "decode64Bytes s") auto
  have i: "decode64Bytes (encode64Bytes x) = Some x"
    by (simp add: encode64Bytes_groups decode_encode_groups)
  from i r show ?thesis
    by (rule conjI)
qed

theorem decode64Bytes_inverse_witness:
  "decode64Bytes (encode64Bytes [1, 2, 3, 4]) = Some [1, 2, 3, 4]
   \<and> decode64Bytes (encode64Bytes []) = Some []
   \<and> decode64Bytes (encode64Bytes (map of_nat [0..<32])) = Some (map of_nat [0..<32])
   \<and> \<not> set ''a=b'' \<subseteq> set itoa64
   \<and> decode64Bytes ''a=b'' = None
   \<and> \<not> set ''ab$.'' \<subseteq> set itoa64
   \<and> decode64Bytes ''ab$.'' = None"
proof -
  have a: "\<not> set ''a=b'' \<subseteq> set itoa64" "\<not> set ''ab$.'' \<subseteq> set itoa64"
    by (simp_all add: itoa64_def)
  have d1: "decode64Bytes (encode64Bytes [1, 2, 3, 4]) = Some [1, 2, 3, 4]"
    by (rule decode64Bytes_inverse [of "[1, 2, 3, 4]" "''a=b''", THEN conjunct1])
  have d2: "decode64Bytes (encode64Bytes []) = Some []"
    by (rule decode64Bytes_inverse [of "[]" "''a=b''", THEN conjunct1])
  have d3: "decode64Bytes (encode64Bytes (map of_nat [0..<32])) = Some (map of_nat [0..<32])"
    by (rule decode64Bytes_inverse [of "map of_nat [0..<32]" "''a=b''", THEN conjunct1])
  have n1: "decode64Bytes ''a=b'' = None"
    by (rule decode64Bytes_inverse [of "[]" "''a=b''", THEN conjunct2, THEN mp]) (rule a(1))
  have n2: "decode64Bytes ''ab$.'' = None"
    by (rule decode64Bytes_inverse [of "[]" "''ab$.''", THEN conjunct2, THEN mp]) (rule a(2))
  from d1 d2 d3 a n1 n2 show ?thesis
    by (intro conjI)
qed

lemma LastIndex_scan_bounds:
  "found < i \<Longrightarrow> found \<le> LastIndex_scan c xs i found \<and> LastIndex_scan c xs i found < i + int (length xs)"
proof (induction xs arbitrary: i found)
  case Nil
  then show ?case by simp
next
  case (Cons x xs)
  have "(if x = c then i else found) < i + 1"
    using Cons.prems by simp
  from Cons.IH [OF this] Cons.prems show ?case
    by (auto split: if_splits)
qed

lemma LastIndex_bounds: "- 1 \<le> LastIndex s c \<and> LastIndex s c < int (length s)"
  using LastIndex_scan_bounds [of "- 1" 0 c s] by (simp add: LastIndex_def)

text \<open>
  What \<open>verifySCrypt\<close> does with a malformed string: a string of fewer than 14
  characters or without the prefix \<open>$7$\<close> is refused with \<open>false\<close>; the function
  panics exactly when the string passes these two tests and its last \<open>$\<close> lies at an
  index from 4 to 13.
\<close>

lemma verifySCrypt_rejects_short_or_foreign:
  "length s < 14 \<or> take 3 s \<noteq> ''$7$'' \<Longrightarrow> verifySCrypt L s p = Inr False"
  by (auto simp add: verifySCrypt_def go_slice_def)

lemma verifySCrypt_panic_iff:
  "verifySCrypt L s p = Inl SliceBoundsOutOfRange \<longleftrightarrow>
     14 \<le> length s \<and> take 3 s = ''$7$'' \<and> 3 < LastIndex s CHR ''$'' \<and> LastIndex s CHR ''$'' < 14"
proof (cases "length s < 14 \<or> take 3 s \<noteq> ''$7$''")
  case True
  then show ?thesis
    using verifySCrypt_rejects_short_or_foreign [OF True, of L p] by auto
next
  case False
  then have len: "14 \<le> length s" and pre: "take 3 s = ''$7$''"
    by simp_all
  let ?ld = "LastIndex s CHR ''$''"
  have b: "- 1 \<le> ?ld" "?ld < int (length s)"
    using LastIndex_bounds [of s "CHR ''$''"] by simp_all
  have s1: "go_slice s 0 3 = Inr ''$7$''"
    using len pre by (simp add: go_slice_def)
  have s3: "\<exists>t. go_slice s (?ld + 1) (int (length s)) = Inr t"
    using b by (simp add: go_slice_def)
  have s2: "(\<exists>t. go_slice s 14 ?ld = Inr t) \<longleftrightarrow> 14 \<le> ?ld"
    using b by (auto simp add: go_slice_def)
  show ?thesis
  proof (cases "?ld \<le> 3")
    case True
    with len show ?thesis
      by (simp add: verifySCrypt_def s1 Let_def)
  next
    case ld3: False
    show ?thesis
    proof (cases "14 \<le> ?ld")
      case True
      with s2 obtain t where t: "go_slice s 14 ?ld = Inr t" by blast
      from s3 obtain t' where t': "go_slice s (?ld + 1) (int (length s)) = Inr t'" by blast
      from True ld3 len show ?thesis
        by (simp add: verifySCrypt_def s1 Let_def t t' split: sum.splits)
    next
      case False
      then have "go_slice s 14 ?ld = Inl SliceBoundsOutOfRange"
        by (simp add: go_slice_def)
      with False ld3 len pre show ?thesis
        by (simp add: verifySCrypt_def s1 Let_def)
    qed
  qed
qed

text \<open>
  Claim C2 at the input \<open>$7$a$aaaaaaaaa\<close>: 14 characters, prefix \<open>$7$\<close>, last
  \<open>$\<close> at index 4. The guard \<open>lastDollar <= 3\<close> lets it pass and the slice
  \<open>storedHash[14:4]\<close> panics, for every password.
\<close>

theorem verifySCrypt_panics:
  "verifySCrypt L ''$7$a$aaaaaaaaa'' p = Inl SliceBoundsOutOfRange"
  by (simp add: verifySCrypt_def go_slice_def LastIndex_def)

subsection \<open>The integer encoder and the generated string\<close>

lemma m6_32: "(0x3f :: 32 word) = mask 6"
  by (simp add: mask_eq_exp_minus_1)

lemma unat_and_mask6_32: "unat ((w :: 32 word) AND 0x3f) = unat w mod 64"
  unfolding m6_32
  by (simp add: unat_mod flip: take_bit_eq_mask add: take_bit_eq_mod)

lemma unat_digit32: "unat (drop_bit (6 * k) (v :: 32 word) AND 0x3f) = unat v div 64 ^ k mod 64"
proof -
  have "unat (drop_bit (6 * k) v) = drop_bit (6 * k) (unat v)"
    by (rule unat_drop_bit_eq)
  also have "\<dots> = unat v div 2 ^ (6 * k)"
    by (rule drop_bit_eq_div)
  finally have "unat (drop_bit (6 * k) v AND 0x3f) = unat v div 2 ^ (6 * k) mod 64"
    by (simp only: unat_and_mask6_32)
  also have "(2::nat) ^ (6 * k) = 64 ^ k"
    by (simp add: power_mult)
  finally show ?thesis .
qed

lemma encode64Uint32_loop_symbols:
  "encode64Uint32_loop v bits i result =
     result @ map (\<lambda>k. itoa64 ! unat (drop_bit (6 * k) v AND 0x3f)) [0..<nat ((bits - i + 5) div 6)]"
proof (induction v bits i result rule: encode64Uint32_loop.induct)
  case (1 v bits i result)
  show ?case
  proof (cases "i < bits")
    case True
    have n: "nat ((bits - i + 5) div 6) = Suc (nat ((bits - (i + 6) + 5) div 6))"
      using True by linarith
    have d: "drop_bit (6 * k) (drop_bit 6 v) = drop_bit (6 * Suc k) v" for k
      by (simp add: add.commute)
    show ?thesis
      using "1.IH" [OF True] True
      by (subst encode64Uint32_loop.simps) (simp only: n map_upt_Suc d, simp)
  next
    case False
    then have "nat ((bits - i + 5) div 6) = 0" by linarith
    with False show ?thesis
      by (subst encode64Uint32_loop.simps) simp
  qed
qed

lemma encode64Uint32_symbols:
  "encode64Uint32 v bits = map (\<lambda>k. itoa64 ! (unat v div 64 ^ k mod 64)) [0..<nat ((bits + 5) div 6)]"
  by (simp add: encode64Uint32_def encode64Uint32_loop_symbols unat_digit32)

lemma encode64Uint32_params:
  "encode64Uint32 14 6 = ''C''" "encode64Uint32 8 30 = ''6....''" "encode64Uint32 1 30 = ''/....''"
  by code_simp+

lemma length_encode64Bytes_32: "length xs = 32 \<Longrightarrow> length (encode64Bytes xs) = 43"
  by (simp add: encode64Bytes_groups encode64_groups_length)

lemma hashSCrypt_Inr:
  "hashSCrypt L (Inr f) p =
     (case scrypt_Key L (bytes_of p) (bytes_of (encode64Bytes (map f [0..<32]))) 16384 8 1 32 of
        Inl err \<Rightarrow> Inl (External err)
      | Inr dk \<Rightarrow> Inr (''$7$C6..../....'' @ encode64Bytes (map f [0..<32]) @ ''$'' @ encode64Bytes dk))"
  by (simp add: hashSCrypt_def rand_Read_def Let_def encode64Uint32_params split: sum.splits)

lemma hashSCrypt_Inl: "hashSCrypt L (Inl e) p = Inl (External e)"
  by (simp add: hashSCrypt_def rand_Read_def)

lemma eqcryptHash_14: "eqcryptHash L rnd u p 14 = hashSCrypt L rnd p"
  by (simp add: eqcryptHash_def)

text \<open>
  Claim C1. Whenever the random source delivers and \<open>scrypt.Key\<close> returns its 32
  bytes, mode 14 of \<open>eqcryptHash\<close> returns a string that starts with \<open>$7$\<close>, has
  \<open>3 + 1 + 5 + 5 + 43 + 1 + 43 = 101\<close> characters, and verifies against the same
  password, for every username and every password.
\<close>

theorem scrypt_round_trip:
  assumes kdf: "scrypt_Key L (bytes_of p) (bytes_of (encode64Bytes (map f [0..<32]))) 16384 8 1 32 = Inr dk"
    and dk: "length dk = 32"
  shows "\<exists>h. eqcryptHash L (Inr f) u p 14 = Inr h \<and> verifySCrypt L h p = Inr True
             \<and> take 3 h = ''$7$'' \<and> length h = 101"
proof -
  let ?es = "encode64Bytes (map f [0..<32])"
  let ?s = "''$7$C6..../....'' @ ?es"
  let ?h = "?s @ ''$'' @ encode64Bytes dk"
  have gen: "eqcryptHash L (Inr f) u p 14 = Inr ?h"
    by (simp add: eqcryptHash_14 hashSCrypt_Inr kdf)
  have les: "length ?es = 43"
    by (rule length_encode64Bytes_32) simp
  have ldk: "length (encode64Bytes dk) = 43"
    by (rule length_encode64Bytes_32) (rule dk)
  have "verifySCrypt L ?h p =
          Inr (case scrypt_Key L (bytes_of p) (bytes_of (drop 14 ?s)) 16384 8 1 32 of
                 Inl err \<Rightarrow> False | Inr dk' \<Rightarrow> encode64Bytes dk' = encode64Bytes dk)"
    by (rule verifySCrypt_shape) (simp_all add: encode64Bytes_no_dollar)
  then have ver: "verifySCrypt L ?h p = Inr True"
    by (simp add: kdf)
  have "take 3 ?h = ''$7$''" "length ?h = 101"
    by (simp_all add: les ldk)
  with gen ver show ?thesis by blast
qed

theorem scrypt_round_trip_witness:
  "scrypt_Key sample_lib (bytes_of ''correcthorse'')
        (bytes_of (encode64Bytes (map (\<lambda>i. of_nat (7 * i + 3)) [0..<32]))) 16384 8 1 32
      = Inr (take 32 (bytes_of ''correcthorse''
               @ bytes_of (encode64Bytes (map (\<lambda>i. of_nat (7 * i + 3)) [0..<32])) @ replicate 32 0))
   \<and> length (take 32 (bytes_of ''correcthorse''
               @ bytes_of (encode64Bytes (map (\<lambda>i. of_nat (7 * i + 3)) [0..<32])) @ replicate 32 0)) = 32
   \<and> eqcryptHash sample_lib (Inr (\<lambda>i. of_nat (7 * i + 3))) ''tester'' ''correcthorse'' 14 =
        Inr ''$7$C6..../....1cE2MwV7hEnC0Z2ILtJNgBbS/WsXKq7df8Pi.TgnJnB$XxaQmJqMoVqPmBLNlAKFmooRKR1O3tqEkcZA7l2R8t2''
   \<and> verifySCrypt sample_lib
        ''$7$C6..../....1cE2MwV7hEnC0Z2ILtJNgBbS/WsXKq7df8Pi.TgnJnB$XxaQmJqMoVqPmBLNlAKFmooRKR1O3tqEkcZA7l2R8t2''
        ''correcthorse'' = Inr True
   \<and> length ''$7$C6..../....1cE2MwV7hEnC0Z2ILtJNgBbS/WsXKq7df8Pi.TgnJnB$XxaQmJqMoVqPmBLNlAKFmooRKR1O3tqEkcZA7l2R8t2'' = (101::nat)"
proof -
  let ?f = "\<lambda>i::nat. (of_nat (7 * i + 3) :: byte)"
  let ?dk = "take 32 (bytes_of ''correcthorse'' @ bytes_of (encode64Bytes (map ?f [0..<32])) @ replicate 32 0)"
  have b: "scrypt_Key sample_lib (bytes_of ''correcthorse'') (bytes_of (encode64Bytes (map ?f [0..<32]))) 16384 8 1 32
           = Inr ?dk"
    by (simp add: sample_lib_def)
  have c: "length ?dk = 32"
    by simp
  have g: "eqcryptHash sample_lib (Inr ?f) ''tester'' ''correcthorse'' 14 =
        Inr ''$7$C6..../....1cE2MwV7hEnC0Z2ILtJNgBbS/WsXKq7df8Pi.TgnJnB$XxaQmJqMoVqPmBLNlAKFmooRKR1O3tqEkcZA7l2R8t2''"
    by code_simp
  from scrypt_round_trip [OF b c, of "''tester''"] g b c
  show ?thesis by auto
qed

text \<open>
  Claim C3. In mode 14 the salt handed to \<open>scrypt.Key\<close> is the byte sequence of the
  encoded salt string (43 bytes, so never the 32 raw bytes), with \<open>N = 16384\<close>,
  \<open>r = 8\<close>, \<open>p = 1\<close> and key length 32; the result depends on the package only
  through that one call. The output is \<open>$7$\<close>, then \<open>encode64Uint32\<close> of 14 in 6
  bits, of 8 in 30 bits and of 1 in 30 bits (that is \<open>C\<close>, \<open>6....\<close> and
  \<open>/....\<close>), the encoded salt, \<open>$\<close> and the encoded key. \<open>encode64Uint32\<close>
  writes \<open>ceil(bits/6)\<close> symbols, the base-64 digits of the value, least significant
  first. A failure of the random source is returned as the error.
\<close>

theorem hashSCrypt_kdf_salt_and_layout:
  "(let rawSalt = map f [0..<32]; encodedSalt = encode64Bytes rawSalt in
      eqcryptHash L (Inr f) u p 14 =
        (case scrypt_Key L (bytes_of p) (bytes_of encodedSalt) 16384 8 1 32 of
           Inl err \<Rightarrow> Inl (External err)
         | Inr dk \<Rightarrow> Inr (''$7$'' @ encode64Uint32 14 6 @ encode64Uint32 8 30 @ encode64Uint32 1 30
                          @ encodedSalt @ ''$'' @ encode64Bytes dk))
      \<and> length rawSalt = 32 \<and> length (bytes_of encodedSalt) = 43 \<and> bytes_of encodedSalt \<noteq> rawSalt
      \<and> (scrypt_Key L' (bytes_of p) (bytes_of encodedSalt) 16384 8 1 32
           = scrypt_Key L (bytes_of p) (bytes_of encodedSalt) 16384 8 1 32
          \<longrightarrow> eqcryptHash L' (Inr f) u p 14 = eqcryptHash L (Inr f) u p 14))
   \<and> eqcryptHash L (Inl e) u p 14 = Inl (External e)
   \<and> encode64Uint32 14 6 = ''C'' \<and> encode64Uint32 8 30 = ''6....'' \<and> encode64Uint32 1 30 = ''/....''
   \<and> (bits < 2 ^ 62 \<longrightarrow>
        length (encode64Uint32 v bits) = nat ((bits + 5) div 6)
        \<and> (\<forall>k < nat ((bits + 5) div 6). encode64Uint32 v bits ! k = itoa64 ! (unat v div 64 ^ k mod 64)))"
proof -
  let ?raw = "map f [0..<32]"
  let ?es = "encode64Bytes ?raw"
  have les: "length ?es = 43"
    by (rule length_encode64Bytes_32) simp
  then have lb: "length (bytes_of ?es) = 43"
    by (simp add: bytes_of_def)
  have ne: "bytes_of ?es \<noteq> ?raw"
  proof
    assume "bytes_of ?es = ?raw"
    then have "length (bytes_of ?es) = length ?raw"
      by (rule arg_cong)
    with lb show False by simp
  qed
  have u: "length (encode64Uint32 v bits) = nat ((bits + 5) div 6)"
    and n: "\<forall>k < nat ((bits + 5) div 6). encode64Uint32 v bits ! k = itoa64 ! (unat v div 64 ^ k mod 64)"
    by (simp_all add: encode64Uint32_symbols)
  show ?thesis
    using lb ne u n
    by (simp add: Let_def eqcryptHash_14 hashSCrypt_Inr hashSCrypt_Inl encode64Uint32_params
          cong: sum.case_cong)
qed


theorem hashSCrypt_kdf_salt_and_layout_witness:
  "eqcryptHash sample_lib sample_rand ''tester'' ''correcthorse'' 14 =
     eqcryptHash (sample_lib\<lparr>md5_Sum := (\<lambda>bs. [])\<rparr>) sample_rand ''tester'' ''correcthorse'' 14
   \<and> (30::int) < 2 ^ 62
   \<and> length (encode64Uint32 0x12345678 30) = 5
   \<and> encode64Uint32 0x12345678 30 ! 0 = CHR ''s''
   \<and> encode64Uint32 0x12345678 30 ! 1 = CHR ''N''
   \<and> encode64Uint32 0x12345678 30 ! 4 = CHR ''G''"
proof -
  let ?f = "\<lambda>i::nat. (of_nat (7 * i + 3) :: byte)"
  have a: "sample_rand = Inr ?f"
    by (simp add: sample_rand_def)
  have b: "scrypt_Key (sample_lib\<lparr>md5_Sum := (\<lambda>bs. [])\<rparr>) x y 16384 8 1 32 = scrypt_Key sample_lib x y 16384 8 1 32" for x y
    by simp
  have c: "(30::int) < 2 ^ 62" "nat ((30 + 5) div 6) = 5" "(0::nat) < 5" "(1::nat) < 5" "(4::nat) < 5"
    by simp_all
  have d: "itoa64 ! (unat (0x12345678 :: 32 word) div 64 ^ 0 mod 64) = CHR ''s''"
    "itoa64 ! (unat (0x12345678 :: 32 word) div 64 ^ 1 mod 64) = CHR ''N''"
    "itoa64 ! (unat (0x12345678 :: 32 word) div 64 ^ 4 mod 64) = CHR ''G''"
    by (simp_all add: itoa64_def)
  from hashSCrypt_kdf_salt_and_layout [of ?f "sample_lib\<lparr>md5_Sum := (\<lambda>bs. [])\<rparr>" "''tester''" "''correcthorse''"
      sample_lib "''x''" 30 "0x12345678"]
  show ?thesis
    unfolding Let_def a [symmetric] using b c d by auto
qed

section \<open>The digest modes and the dispatcher\<close>

lemma m4: "(0xf :: byte) = mask 4"
  by (simp add: mask_eq_exp_minus_1)

lemma unat_hi_nibble: "unat (drop_bit 4 (b :: byte)) = unat b div 16"
  by (simp add: drop_bit_eq_div unat_div)

lemma unat_lo_nibble: "unat ((b :: byte) AND 0xf) = unat b mod 16"
  unfolding m4
  by (simp add: unat_mod flip: take_bit_eq_mask add: take_bit_eq_mod)

lemma hex_byte_digits: "hex_byte b = [hexdigits ! (unat b div 16), hexdigits ! (unat b mod 16)]"
  by (simp only: hex_byte_def unat_hi_nibble unat_lo_nibble)

lemma hex_byte_lower: "set (hex_byte b) \<subseteq> set hexdigits"
proof -
  have "hexdigits ! i \<in> set hexdigits" if "i < 16" for i
    by (rule nth_mem) (use that in \<open>simp add: hexdigits_def\<close>)
  moreover have "unat b div 16 < 16" "unat b mod 16 < 16"
    using byte_less [of b] by simp_all
  ultimately show ?thesis
    by (simp only: hex_byte_digits) simp
qed

lemma fmt_x_lower: "set (fmt_x bs) \<subseteq> set hexdigits"
  using hex_byte_lower by (auto simp add: fmt_x_def)

lemma length_fmt_x: "length (fmt_x bs) = 2 * length bs"
  by (induction bs) (simp_all add: fmt_x_def hex_byte_def)

lemma fmt_x_Cons: "fmt_x (b # bs) = [hexdigits ! (unat b div 16), hexdigits ! (unat b mod 16)] @ fmt_x bs"
  by (simp add: fmt_x_def hex_byte_digits)

lemma fmt_x_Nil: "fmt_x [] = []"
  by (simp add: fmt_x_def)

text \<open>
  Claim C4. For every username and password, modes 1 to 12 of \<open>eqcryptHash\<close> return
  the hexadecimal text of the digest in the table: the digest of the password, of
  \<open>password:username\<close>, of \<open>username:password\<close>, and of the two hexadecimal
  digests of username and password put together, with MD5 for modes 1 to 4, SHA1 for 5
  to 8 and SHA512 for 9 to 12. The text has two digits of \<open>0123456789abcdef\<close> per
  byte, high nibble first. None of these modes returns an error, and none reads the
  random source: the result is the same whatever the source holds.
\<close>

theorem eqcryptHash_digest_modes:
  "eqcryptHash L rnd u p 1 = Inr (fmt_x (md5_Sum L (bytes_of p)))
   \<and> eqcryptHash L rnd u p 2 = Inr (fmt_x (md5_Sum L (bytes_of (p @ '':'' @ u))))
   \<and> eqcryptHash L rnd u p 3 = Inr (fmt_x (md5_Sum L (bytes_of (u @ '':'' @ p))))
   \<and> eqcryptHash L rnd u p 4 =
        Inr (fmt_x (md5_Sum L (bytes_of (fmt_x (md5_Sum L (bytes_of u)) @ fmt_x (md5_Sum L (bytes_of p))))))
   \<and> eqcryptHash L rnd u p 5 = Inr (fmt_x (sha1_Sum L (bytes_of p)))
   \<and> eqcryptHash L rnd u p 6 = Inr (fmt_x (sha1_Sum L (bytes_of (p @ '':'' @ u))))
   \<and> eqcryptHash L rnd u p 7 = Inr (fmt_x (sha1_Sum L (bytes_of (u @ '':'' @ p))))
   \<and> eqcryptHash L rnd u p 8 =
        Inr (fmt_x (sha1_Sum L (bytes_of (fmt_x (sha1_Sum L (bytes_of u)) @ fmt_x (sha1_Sum L (bytes_of p))))))
   \<and> eqcryptHash L rnd u p 9 = Inr (fmt_x (sha512_Sum512 L (bytes_of p)))
   \<and> eqcryptHash L rnd u p 10 = Inr (fmt_x (sha512_Sum512 L (bytes_of (p @ '':'' @ u))))
   \<and> eqcryptHash L rnd u p 11 = Inr (fmt_x (sha512_Sum512 L (bytes_of (u @ '':'' @ p))))
   \<and> eqcryptHash L rnd u p 12 =
        Inr (fmt_x (sha512_Sum512 L (bytes_of (fmt_x (sha512_Sum512 L (bytes_of u))
                                                 @ fmt_x (sha512_Sum512 L (bytes_of p))))))
   \<and> fmt_x [] = []
   \<and> fmt_x (b # bs) = [''0123456789abcdef'' ! (unat b div 16), ''0123456789abcdef'' ! (unat b mod 16)] @ fmt_x bs
   \<and> (1 \<le> m \<and> m \<le> 12 \<longrightarrow>
        (\<exists>h. eqcryptHash L rnd u p m = Inr h \<and> eqcryptHash L rnd' u p m = Inr h
             \<and> set h \<subseteq> set ''0123456789abcdef'' \<and> even (length h)))"
proof -
  have modes: "eqcryptHash L rnd u p 1 = Inr (fmt_x (md5_Sum L (bytes_of p)))"
    "eqcryptHash L rnd u p 2 = Inr (fmt_x (md5_Sum L (bytes_of (p @ '':'' @ u))))"
    "eqcryptHash L rnd u p 3 = Inr (fmt_x (md5_Sum L (bytes_of (u @ '':'' @ p))))"
    "eqcryptHash L rnd u p 4 =
        Inr (fmt_x (md5_Sum L (bytes_of (fmt_x (md5_Sum L (bytes_of u)) @ fmt_x (md5_Sum L (bytes_of p))))))"
    "eqcryptHash L rnd u p 5 = Inr (fmt_x (sha1_Sum L (bytes_of p)))"
    "eqcryptHash L rnd u p 6 = Inr (fmt_x (sha1_Sum L (bytes_of (p @ '':'' @ u))))"
    "eqcryptHash L rnd u p 7 = Inr (fmt_x (sha1_Sum L (bytes_of (u @ '':'' @ p))))"
    "eqcryptHash L rnd u p 8 =
        Inr (fmt_x (sha1_Sum L (bytes_of (fmt_x (sha1_Sum L (bytes_of u)) @ fmt_x (sha1_Sum L (bytes_of p))))))"
    "eqcryptHash L rnd u p 9 = Inr (fmt_x (sha512_Sum512 L (bytes_of p)))"
    "eqcryptHash L rnd u p 10 = Inr (fmt_x (sha512_Sum512 L (bytes_of (p @ '':'' @ u))))"
    "eqcryptHash L rnd u p 11 = Inr (fmt_x (sha512_Sum512 L (bytes_of (u @ '':'' @ p))))"
    "eqcryptHash L rnd u p 12 =
        Inr (fmt_x (sha512_Sum512 L (bytes_of (fmt_x (sha512_Sum512 L (bytes_of u))
                                                 @ fmt_x (sha512_Sum512 L (bytes_of p))))))"
    by (simp_all add: eqcryptHash_def hashMD5_def hashSHA1_def hashSHA512_def)
  have fx: "fmt_x (b # bs) = [''0123456789abcdef'' ! (unat b div 16), ''0123456789abcdef'' ! (unat b mod 16)] @ fmt_x bs"
    using fmt_x_Cons [of b bs] by (simp only: hexdigits_def)
  have det: "\<exists>h. eqcryptHash L rnd u p m = Inr h \<and> eqcryptHash L rnd' u p m = Inr h
             \<and> set h \<subseteq> set ''0123456789abcdef'' \<and> even (length h)"
    if m: "1 \<le> m" "m \<le> 12"
  proof -
    from m have "m \<in> {1, 2, 3, 4, 5, 6, 7, 8, 9, 10, 11, 12}"
      by simp presburger
    moreover have "set (fmt_x xs) \<subseteq> set ''0123456789abcdef''" for xs
      using fmt_x_lower [of xs] by (simp only: hexdigits_def)
    ultimately show ?thesis
      by (auto simp add: eqcryptHash_def hashMD5_def hashSHA1_def hashSHA512_def length_fmt_x
            simp del: set_simps)
  qed
  from modes fx det fmt_x_Nil show ?thesis
    by blast
qed


theorem eqcryptHash_digest_modes_witness:
  "(1::int) \<le> 3 \<and> (3::int) \<le> 12
   \<and> eqcryptHash sample_lib sample_rand ''tester'' ''hunter2'' 3 = Inr ''7465737465723a68756e746572320000''
   \<and> eqcryptHash sample_lib (Inl ''no entropy'') ''tester'' ''hunter2'' 3 = Inr ''7465737465723a68756e746572320000''
   \<and> set ''7465737465723a68756e746572320000'' \<subseteq> set ''0123456789abcdef''
   \<and> even (length ''7465737465723a68756e746572320000'')"
proof -
  have g: "eqcryptHash sample_lib sample_rand ''tester'' ''hunter2'' 3 = Inr ''7465737465723a68756e746572320000''"
    by code_simp
  have "(1::int) \<le> 3 \<and> (3::int) \<le> 12"
    by simp
  with eqcryptHash_digest_modes [of sample_lib sample_rand "''tester''" "''hunter2''" 0 "[]" 3 "Inl ''no entropy''"]
  obtain h where h: "eqcryptHash sample_lib sample_rand ''tester'' ''hunter2'' 3 = Inr h"
      "eqcryptHash sample_lib (Inl ''no entropy'') ''tester'' ''hunter2'' 3 = Inr h"
      "set h \<subseteq> set ''0123456789abcdef''" "even (length h)"
    by blast
  from h(1) g have "h = ''7465737465723a68756e746572320000''"
    by simp
  with h show ?thesis
    by simp
qed

section \<open>The Argon2id format\<close>

lemma fmt_d_digit: "n < 10 \<Longrightarrow> fmt_d n = [ldigits ! n]"
  by (subst fmt_d.simps) simp

lemma fmt_d_step: "10 \<le> n \<Longrightarrow> fmt_d n = fmt_d (n div 10) @ [ldigits ! (n mod 10)]"
  by (subst fmt_d.simps) simp

lemma fmt_d_params: "fmt_d 65536 = ''65536''" "fmt_d 2 = ''2''" "fmt_d (Suc 0) = ''1''"
  by (simp_all add: fmt_d_digit fmt_d_step ldigits_def)

lemma length_encodeStd: "length encodeStd = 64"
  by (simp add: encodeStd_def)

lemma std_sym_in: "encodeStd ! unat ((w :: 64 word) AND 0x3f) \<in> set encodeStd"
  by (rule nth_mem) (simp add: length_encodeStd mask6_less64)

lemma RawStd_alphabet: "set (RawStdEncoding_EncodeToString xs) \<subseteq> set encodeStd"
  by (induction xs rule: RawStdEncoding_EncodeToString.induct) (simp_all add: Let_def std_sym_in)

lemma RawStd_length:
  "length (RawStdEncoding_EncodeToString xs) = 4 * (length xs div 3) + [0, 2, 3] ! (length xs mod 3)"
proof (induction xs rule: RawStdEncoding_EncodeToString.induct)
  case (1 a b c rest)
  have "(3 + length rest) div 3 = Suc (length rest div 3)" "(3 + length rest) mod 3 = length rest mod 3"
    by simp_all
  with 1 show ?case by (simp add: Let_def)
qed (simp_all add: Let_def)

lemma hashArgon2_Inr:
  "hashArgon2 L (Inr f) p =
     Inr (''$argon2id$v=19$m=65536,t=2,p=1$'' @ RawStdEncoding_EncodeToString (map f [0..<16]) @ ''$''
          @ RawStdEncoding_EncodeToString (argon2_IDKey L (bytes_of p) (map f [0..<16]) 2 65536 1 32))"
  by (simp add: hashArgon2_def rand_Read_def Let_def fmt_d_params)

lemma hashArgon2_Inl: "hashArgon2 L (Inl e) p = Inl (External e)"
  by (simp add: hashArgon2_def rand_Read_def)

lemma eqcryptHash_13: "eqcryptHash L rnd u p 13 = hashArgon2 L rnd p"
  by (simp add: eqcryptHash_def)

text \<open>
  Claim C5. For every password, mode 13 returns the PHC string
  \<open>$argon2id$v=19$m=65536,t=2,p=1$\<close>, the base64 text of the salt, \<open>$\<close> and the
  base64 text of the digest. The salt is the 16 bytes drawn from the random source (22
  symbols); the digest is \<open>argon2.IDKey\<close> of the password and that salt with time cost
  2, memory cost 65536 KiB, 1 thread and key length 32. Both base64 texts use the
  alphabet of RFC 4648 and contain no padding character. A failure of the random source
  is returned as the error.
\<close>

theorem hashArgon2_phc:
  "eqcryptHash L (Inr f) u p 13 =
     Inr (''$argon2id$v=19$m=65536,t=2,p=1$'' @ RawStdEncoding_EncodeToString (map f [0..<16]) @ ''$''
          @ RawStdEncoding_EncodeToString (argon2_IDKey L (bytes_of p) (map f [0..<16]) 2 65536 1 32))
   \<and> length (map f [0..<16]) = 16
   \<and> length (RawStdEncoding_EncodeToString (map f [0..<16])) = 22
   \<and> eqcryptHash L (Inl e) u p 13 = Inl (External e)
   \<and> encodeStd = ''ABCDEFGHIJKLMNOPQRSTUVWXYZabcdefghijklmnopqrstuvwxyz0123456789+/''
   \<and> set (RawStdEncoding_EncodeToString xs) \<subseteq> set encodeStd
   \<and> CHR ''='' \<notin> set (RawStdEncoding_EncodeToString xs)
   \<and> length (RawStdEncoding_EncodeToString xs) = 4 * (length xs div 3) + [0, 2, 3] ! (length xs mod 3)"
proof -
  have "CHR ''='' \<notin> set encodeStd"
    by (simp add: encodeStd_def)
  then have ne: "CHR ''='' \<notin> set (RawStdEncoding_EncodeToString xs)"
    using RawStd_alphabet [of xs] by auto
  have l: "length (RawStdEncoding_EncodeToString (map f [0..<16])) = 22"
    by (simp add: RawStd_length)
  show ?thesis
    using ne l RawStd_alphabet [of xs] RawStd_length [of xs]
    by (simp add: eqcryptHash_13 hashArgon2_Inr hashArgon2_Inl encodeStd_def [symmetric])
qed

lemma hashArgon2_not_unsupported: "hashArgon2 L rnd p \<noteq> Inl (UnsupportedMode n)"
  by (cases rnd) (simp_all add: hashArgon2_Inr hashArgon2_Inl)

lemma hashSCrypt_not_unsupported: "hashSCrypt L rnd p \<noteq> Inl (UnsupportedMode n)"
  by (cases rnd) (simp_all add: hashSCrypt_Inr hashSCrypt_Inl split: sum.splits)

lemma digest_mode_cases:
  fixes m :: int
  assumes "1 \<le> m" "m \<le> 12"
  shows "m \<in> {1, 2, 3, 4, 5, 6, 7, 8, 9, 10, 11, 12}"
  using assms by simp presburger

lemma eqcryptHash_digest_Inr:
  assumes "1 \<le> m" "m \<le> 12"
  shows "\<exists>h. eqcryptHash L rnd u p m = Inr h"
  using digest_mode_cases [OF assms] by (auto simp add: eqcryptHash_def)

lemma eqcryptHash_out_of_range:
  assumes "m < 1 \<or> 14 < m"
  shows "eqcryptHash L rnd u p m = Inl (UnsupportedMode m)"
  using assms by (auto simp add: eqcryptHash_def)

lemma eqcryptHash_in_range:
  assumes "1 \<le> m" "m \<le> 14"
  shows "eqcryptHash L rnd u p m \<noteq> Inl (UnsupportedMode n)"
proof (cases "m \<le> 12")
  case True
  with assms eqcryptHash_digest_Inr [of m L rnd u p] show ?thesis by auto
next
  case False
  with assms have "m = 13 \<or> m = 14" by presburger
  then show ?thesis
    using hashArgon2_not_unsupported hashSCrypt_not_unsupported
    by (auto simp add: eqcryptHash_13 eqcryptHash_14)
qed

text \<open>
  Claim C8. \<open>eqcryptHash\<close> returns the unsupported-mode error exactly when the mode
  is below 1 or above 14, and the error then carries that mode. Every mode from 1 to 14
  is routed to its scheme: modes 1 to 4 to \<open>hashMD5\<close>, 5 to 8 to \<open>hashSHA1\<close> and 9
  to 12 to \<open>hashSHA512\<close>, each on the password, on \<open>password:username\<close>, on
  \<open>username:password\<close> and on the two hexadecimal digests put together; mode 13 to
  \<open>hashArgon2\<close> and mode 14 to \<open>hashSCrypt\<close>. Whatever error these two return comes
  from a package and is never the unsupported-mode error.
\<close>

theorem eqcryptHash_unsupported_iff:
  "((\<exists>n. eqcryptHash L rnd u p m = Inl (UnsupportedMode n)) \<longleftrightarrow> (m < 1 \<or> 14 < m))
   \<and> (eqcryptHash L rnd u p m = Inl (UnsupportedMode m) \<longleftrightarrow> (m < 1 \<or> 14 < m))
   \<and> (1 \<le> m \<and> m \<le> 12 \<longrightarrow> (\<exists>h. eqcryptHash L rnd u p m = Inr h))
   \<and> eqcryptHash L rnd u p 1 = Inr (hashMD5 L p)
   \<and> eqcryptHash L rnd u p 2 = Inr (hashMD5 L (p @ '':'' @ u))
   \<and> eqcryptHash L rnd u p 3 = Inr (hashMD5 L (u @ '':'' @ p))
   \<and> eqcryptHash L rnd u p 4 = Inr (hashMD5 L (hashMD5 L u @ hashMD5 L p))
   \<and> eqcryptHash L rnd u p 5 = Inr (hashSHA1 L p)
   \<and> eqcryptHash L rnd u p 6 = Inr (hashSHA1 L (p @ '':'' @ u))
   \<and> eqcryptHash L rnd u p 7 = Inr (hashSHA1 L (u @ '':'' @ p))
   \<and> eqcryptHash L rnd u p 8 = Inr (hashSHA1 L (hashSHA1 L u @ hashSHA1 L p))
   \<and> eqcryptHash L rnd u p 9 = Inr (hashSHA512 L p)
   \<and> eqcryptHash L rnd u p 10 = Inr (hashSHA512 L (p @ '':'' @ u))
   \<and> eqcryptHash L rnd u p 11 = Inr (hashSHA512 L (u @ '':'' @ p))
   \<and> eqcryptHash L rnd u p 12 = Inr (hashSHA512 L (hashSHA512 L u @ hashSHA512 L p))
   \<and> eqcryptHash L rnd u p 13 = hashArgon2 L rnd p
   \<and> eqcryptHash L rnd u p 14 = hashSCrypt L rnd p
   \<and> hashArgon2 L rnd p \<noteq> Inl (UnsupportedMode k)
   \<and> hashSCrypt L rnd p \<noteq> Inl (UnsupportedMode k)"
proof -
  have routes: "eqcryptHash L rnd u p 1 = Inr (hashMD5 L p)"
    "eqcryptHash L rnd u p 2 = Inr (hashMD5 L (p @ '':'' @ u))"
    "eqcryptHash L rnd u p 3 = Inr (hashMD5 L (u @ '':'' @ p))"
    "eqcryptHash L rnd u p 4 = Inr (hashMD5 L (hashMD5 L u @ hashMD5 L p))"
    "eqcryptHash L rnd u p 5 = Inr (hashSHA1 L p)"
    "eqcryptHash L rnd u p 6 = Inr (hashSHA1 L (p @ '':'' @ u))"
    "eqcryptHash L rnd u p 7 = Inr (hashSHA1 L (u @ '':'' @ p))"
    "eqcryptHash L rnd u p 8 = Inr (hashSHA1 L (hashSHA1 L u @ hashSHA1 L p))"
    "eqcryptHash L rnd u p 9 = Inr (hashSHA512 L p)"
    "eqcryptHash L rnd u p 10 = Inr (hashSHA512 L (p @ '':'' @ u))"
    "eqcryptHash L rnd u p 11 = Inr (hashSHA512 L (u @ '':'' @ p))"
    "eqcryptHash L rnd u p 12 = Inr (hashSHA512 L (hashSHA512 L u @ hashSHA512 L p))"
    by (simp_all add: eqcryptHash_def)
  have err: "((\<exists>n. eqcryptHash L rnd u p m = Inl (UnsupportedMode n)) \<longleftrightarrow> (m < 1 \<or> 14 < m))
     \<and> (eqcryptHash L rnd u p m = Inl (UnsupportedMode m) \<longleftrightarrow> (m < 1 \<or> 14 < m))
     \<and> (1 \<le> m \<and> m \<le> 12 \<longrightarrow> (\<exists>h. eqcryptHash L rnd u p m = Inr h))"
  proof (cases "m < 1 \<or> 14 < m")
    case True
    then have "\<not> (1 \<le> m \<and> m \<le> 12)" by presburger
    with True eqcryptHash_out_of_range [OF True, of L rnd u p] show ?thesis
      by simp
  next
    case False
    then have r: "1 \<le> m" "m \<le> 14" by simp_all
    have "\<forall>n. eqcryptHash L rnd u p m \<noteq> Inl (UnsupportedMode n)"
      using eqcryptHash_in_range [OF r] by blast
    with False eqcryptHash_digest_Inr [of m L rnd u p] show ?thesis
      by simp
  qed
  from err routes eqcryptHash_13 [of L rnd u p] eqcryptHash_14 [of L rnd u p]
    hashArgon2_not_unsupported [of L rnd p k] hashSCrypt_not_unsupported [of L rnd p k]
  show ?thesis
    by (intro conjI) (erule conjunct1, erule conjunct2 [THEN conjunct1], erule conjunct2 [THEN conjunct2], assumption+)
qed

theorem eqcryptHash_unsupported_iff_witness:
  "eqcryptHash sample_lib sample_rand ''tester'' ''hunter2'' 15 = Inl (UnsupportedMode 15)
   \<and> eqcryptHash sample_lib sample_rand ''tester'' ''hunter2'' 0 = Inl (UnsupportedMode 0)
   \<and> (1::int) \<le> 3 \<and> (3::int) \<le> 12
   \<and> eqcryptHash sample_lib sample_rand ''tester'' ''hunter2'' 3 \<noteq> Inl (UnsupportedMode 3)
   \<and> eqcryptHash sample_lib sample_rand ''tester'' ''hunter2'' 3 = Inr (hashMD5 sample_lib ''tester:hunter2'')"
  using eqcryptHash_unsupported_iff [of sample_lib sample_rand "''tester''" "''hunter2''" 15 0]
    eqcryptHash_unsupported_iff [of sample_lib sample_rand "''tester''" "''hunter2''" 0 0]
    eqcryptHash_unsupported_iff [of sample_lib sample_rand "''tester''" "''hunter2''" 3 0]
  by simp

text \<open>
  Claim C9. The table \<open>modeNeedsUsername\<close> reads as true exactly for modes 2, 3, 4,
  6, 7, 8, 10, 11 and 12. For every other mode the result of \<open>eqcryptHash\<close> does not
  depend on the username: two calls that differ in the username only, with the same
  draw of the random source, return the same result.
\<close>

theorem username_only_where_required:
  "(modeRequiresUsername m \<longleftrightarrow> m \<in> {2, 3, 4, 6, 7, 8, 10, 11, 12})
   \<and> (\<not> modeRequiresUsername m \<longrightarrow> eqcryptHash L rnd u p m = eqcryptHash L rnd u' p m)"
proof -
  have t: "modeRequiresUsername m \<longleftrightarrow> m \<in> {2, 3, 4, 6, 7, 8, 10, 11, 12}"
    by (simp add: modeRequiresUsername_def modeNeedsUsername_def)
  have "eqcryptHash L rnd u p m = eqcryptHash L rnd u' p m" if "m \<notin> {2, 3, 4, 6, 7, 8, 10, 11, 12}"
    using that by (simp add: eqcryptHash_def)
  with t show ?thesis by simp
qed

theorem username_only_where_required_witness:
  "\<not> modeRequiresUsername 14
   \<and> eqcryptHash sample_lib sample_rand ''alice'' ''hunter2'' 14 = eqcryptHash sample_lib sample_rand ''bob'' ''hunter2'' 14
   \<and> \<not> modeRequiresUsername 1
   \<and> eqcryptHash sample_lib sample_rand ''alice'' ''hunter2'' 1 = eqcryptHash sample_lib sample_rand ''bob'' ''hunter2'' 1"
  using username_only_where_required [of 14 sample_lib sample_rand "''alice''" "''hunter2''" "''bob''"]
    username_only_where_required [of 1 sample_lib sample_rand "''alice''" "''hunter2''" "''bob''"]
  by simp

end
